theory Spec2Isabelle
  imports Complex_Main "HOL-Library.Sublist" "HOL-Library.Multiset" "HOL-Library.AList"
begin

section \<open>Python values and exceptions\<close>

text \<open>
  A Python \<open>str\<close> is modelled as a \<open>string\<close> whose characters are the code points
  below 256. The request payload of \<open>api_query\<close> is a \<open>Dict[str, Any]\<close> decoded from
  JSON, so its values are \<open>None\<close>, booleans, integers, floats, strings, lists and
  dictionaries. A float is its exact value (a rational), an infinity or a NaN; only
  its truth value and its conversion by \<open>int()\<close> are used.
\<close>

datatype pyfloat = Finite rat | PosInf | NegInf | NaN

datatype pyval =
    PNone
  | PBool bool
  | PInt int
  | PFloat pyfloat
  | PStr string
  | PList "pyval list"
  | PDict "(string \<times> pyval) list"

type_synonym payload = "string \<rightharpoonup> pyval"

text \<open>
  \<open>HTTPException\<close> of the HTTP layer carries a status code and a detail. An
  exception is described by the name of its class, by the text \<open>str(e)\<close> and,
  when it is an instance of \<open>HTTPException\<close>, by that exception's status and
  detail; \<open>exc_http\<close> is \<open>None\<close> for every other exception.
\<close>

datatype http_exception = HTTPException (status_code: nat) (detail: string)

datatype py_exception =
  PyException (exc_class: string) (exc_str: string) (exc_http: "http_exception option")

text \<open>Truth value of a payload value, as Python's \<open>or\<close> tests it.\<close>

fun truthy :: "pyval \<Rightarrow> bool" where
  "truthy PNone = False"
| "truthy (PBool b) = b"
| "truthy (PInt n) = (n \<noteq> 0)"
| "truthy (PFloat (Finite r)) = (r \<noteq> 0)"
| "truthy (PFloat _) = True"
| "truthy (PStr s) = (s \<noteq> [])"
| "truthy (PList xs) = (xs \<noteq> [])"
| "truthy (PDict kvs) = (kvs \<noteq> [])"

text \<open>\<open>payload.get(k) or d\<close>: the value under \<open>k\<close> when present and truthy, else \<open>d\<close>.\<close>

definition get_or :: "payload \<Rightarrow> string \<Rightarrow> pyval \<Rightarrow> pyval" where
  "get_or payload k d =
     (case payload k of
        None \<Rightarrow> d
      | Some v \<Rightarrow> if truthy v then v else d)"

fun type_name :: "pyval \<Rightarrow> string" where
  "type_name PNone = ''NoneType''"
| "type_name (PBool _) = ''bool''"
| "type_name (PInt _) = ''int''"
| "type_name (PFloat _) = ''float''"
| "type_name (PStr _) = ''str''"
| "type_name (PList _) = ''list''"
| "type_name (PDict _) = ''dict''"

text \<open>
  \<open>str.isspace\<close> on the code points below 256, and \<open>str.strip()\<close> with no argument,
  which removes the whitespace at both ends.
\<close>

definition isspace :: "char \<Rightarrow> bool" where
  "isspace c =
     (let n = (of_char c :: nat)
      in (9 \<le> n \<and> n \<le> 13) \<or> (28 \<le> n \<and> n \<le> 32) \<or> n = 133 \<or> n = 160)"

definition lstrip :: "string \<Rightarrow> string" where
  "lstrip s = dropWhile isspace s"

definition rstrip :: "string \<Rightarrow> string" where
  "rstrip s = rev (dropWhile isspace (rev s))"

definition strip :: "string \<Rightarrow> string" where
  "strip s = rstrip (lstrip s)"

text \<open>
  The method call \<open>v.strip()\<close> on a payload value: only a \<open>str\<close> has the method, any
  other value raises \<open>AttributeError\<close>.
\<close>

fun strip_method :: "pyval \<Rightarrow> py_exception + string" where
  "strip_method (PStr s) = Inr (strip s)"
| "strip_method v =
     Inl (PyException ''AttributeError''
            ([CHR 0x27] @ type_name v @ [CHR 0x27] @ '' object has no attribute '' @
             [CHR 0x27] @ ''strip'' @ [CHR 0x27])
            None)"

text \<open>Truncation toward zero, as \<open>int()\<close> converts a finite float.\<close>

definition trunc_rat :: "rat \<Rightarrow> int" where
  "trunc_rat r = (if 0 \<le> r then \<lfloor>r\<rfloor> else \<lceil>r\<rceil>)"

text \<open>
  The builtin \<open>int(v)\<close>. On an integer, a boolean and a finite float the result is
  fixed by the language. On the other arguments (a string to be parsed, a
  non-finite float, a value that is no number) the result or the raised exception
  is the interpreter's; it is the parameter \<open>other\<close>.
\<close>

fun py_int :: "(pyval \<Rightarrow> py_exception + int) \<Rightarrow> pyval \<Rightarrow> py_exception + int" where
  "py_int other (PInt n) = Inr n"
| "py_int other (PBool b) = Inr (if b then 1 else 0)"
| "py_int other (PFloat (Finite r)) = Inr (trunc_rat r)"
| "py_int other v = other v"

section \<open>The module \<open>core\<close> as the routes see it\<close>

text \<open>
  \<open>api.py\<close> imports the local module \<open>core\<close> and uses its constants and functions.
  The constants are the fields of \<open>core_consts\<close>. The functions act on state that
  the routes never touch (the loaded index, the embedding and generation
  backends): each takes the state of that world, of type \<open>'w\<close>, and returns either
  the exception it raised or its value, with the new state.
\<close>

record core_consts =
  DATA_DIR :: string
  ARTIFACTS_DIR :: string
  ALLOWED_EXTS :: "string set"
  TOP_K_DEFAULT :: int
  SYSTEM_PROMPT_RAG :: string
  SYSTEM_PROMPT_BARE :: string
  LLM_MODEL :: string
  EMB_MODEL :: string

record ('w, 'hit, 'stats) core = core_consts +
  retrieve :: "string \<Rightarrow> int \<Rightarrow> 'w \<Rightarrow> (py_exception + 'hit list) \<times> 'w"
  build_context :: "'hit list \<Rightarrow> 'w \<Rightarrow> (py_exception + string) \<times> 'w"
  ollama_chat :: "string \<Rightarrow> string \<Rightarrow> 'w \<Rightarrow> (py_exception + string) \<times> 'w"
  build_index_from_data ::
    "string \<Rightarrow> int \<Rightarrow> int \<Rightarrow> string \<Rightarrow> 'w \<Rightarrow> (py_exception + 'stats) \<times> 'w"

text \<open>
  What the interpreter supplies: the clock \<open>time.time()\<close>, whose readings have type
  \<open>'t\<close>, the latency \<open>int((t1 - t0) * 1000)\<close> of two readings (floating-point
  arithmetic, left as a parameter), and \<open>int()\<close> on the arguments that \<open>py_int\<close>
  leaves open.
\<close>

record ('w, 't) runtime =
  time_time :: "'w \<Rightarrow> 't \<times> 'w"
  elapsed_ms :: "'t \<Rightarrow> 't \<Rightarrow> int"
  int_other :: "pyval \<Rightarrow> py_exception + int"

text \<open>
  The calls a route makes into \<open>core\<close>, in the order made, each with its arguments
  and its outcome. The log is not part of the source; it makes the calls observable.
\<close>

datatype 'hit call =
    Retrieve string int "py_exception + 'hit list"
  | BuildContext "'hit list" "py_exception + string"
  | OllamaChat string string "py_exception + string"

section \<open>The query route\<close>

record 'hit query_response =
  rag_answer :: string
  rag_chunks :: "'hit list"
  llm_answer :: string
  latency_retrieval :: int
  latency_rag :: int
  latency_llm :: int
  latency_total :: int
  used_model :: string
  used_embed :: string
  used_top_k :: int

text \<open>\<open>except Exception as e: raise HTTPException(status_code=500, detail=str(e))\<close>\<close>

definition internal_error :: "py_exception \<Rightarrow> http_exception" where
  "internal_error e = HTTPException 500 (exc_str e)"

text \<open>
  The two handlers of \<open>api_query\<close>, lines 122 to 125, in their order:
  \<open>except HTTPException: raise\<close> lets an \<open>HTTPException\<close> pass as it is, whoever
  raised it in the body, and every other exception becomes status 500.
\<close>

definition query_handler :: "py_exception \<Rightarrow> http_exception" where
  "query_handler e =
     (case exc_http e of
        Some h \<Rightarrow> h
      | None \<Rightarrow> internal_error e)"

definition question_required :: http_exception where
  "question_required =
     HTTPException 400 ([CHR 0x27] @ ''question'' @ [CHR 0x27] @ '' is required'')"

text \<open>
  Lines 94 to 97 of \<open>api_query\<close>: the question is read and stripped, an empty one is
  refused with status 400, and \<open>top_k\<close> is read. An exception of \<open>.strip()\<close> or of
  \<open>int()\<close> goes through the handlers.
\<close>

definition parse_query ::
  "('w, 't) runtime \<Rightarrow> ('w, 'hit, 'stats) core \<Rightarrow> payload \<Rightarrow> http_exception + (string \<times> int)" where
  "parse_query rt c payload =
     (case strip_method (get_or payload ''question'' (PStr [])) of
        Inl e \<Rightarrow> Inl (query_handler e)
      | Inr question \<Rightarrow>
          if question = [] then Inl question_required
          else (case py_int (int_other rt) (get_or payload ''top_k'' (PInt (TOP_K_DEFAULT c))) of
                  Inl e \<Rightarrow> Inl (query_handler e)
                | Inr top_k \<Rightarrow> Inr (question, top_k)))"

text \<open>\<open>f"Question:\n{question}\n\nContext:\n{ctx}"\<close>\<close>

definition rag_user_prompt :: "string \<Rightarrow> string \<Rightarrow> string" where
  "rag_user_prompt question ctx =
     ''Question:'' @ [CHR 0x0A] @ question @ [CHR 0x0A, CHR 0x0A] @ ''Context:'' @ [CHR 0x0A] @ ctx"

text \<open>
  Lines 104 to 121: the two generation calls and the response. \<open>cs\<close> is the log of
  the calls made so far.
\<close>

definition generate_answers ::
  "('w, 't) runtime \<Rightarrow> ('w, 'hit, 'stats) core \<Rightarrow> string \<Rightarrow> int \<Rightarrow> 't \<Rightarrow> 'hit list \<Rightarrow> string \<Rightarrow>
   'hit call list \<Rightarrow> 'w \<Rightarrow> (http_exception + 'hit query_response) \<times> 'hit call list \<times> 'w" where
  "generate_answers rt c question top_k t0 hits ctx cs w =
     (let (t1, w1) = time_time rt w;
          rag_user = rag_user_prompt question ctx;
          (r_rag, w2) = ollama_chat c (SYSTEM_PROMPT_RAG c) rag_user w1;
          cs1 = cs @ [OllamaChat (SYSTEM_PROMPT_RAG c) rag_user r_rag]
      in case r_rag of
           Inl e \<Rightarrow> (Inl (query_handler e), cs1, w2)
         | Inr rag_ans \<Rightarrow>
             let (t2, w3) = time_time rt w2;
                 (r_bare, w4) = ollama_chat c (SYSTEM_PROMPT_BARE c) question w3;
                 cs2 = cs1 @ [OllamaChat (SYSTEM_PROMPT_BARE c) question r_bare]
             in case r_bare of
                  Inl e \<Rightarrow> (Inl (query_handler e), cs2, w4)
                | Inr bare_ans \<Rightarrow>
                    let (t3, w5) = time_time rt w4
                    in (Inr \<lparr> rag_answer = rag_ans, rag_chunks = hits, llm_answer = bare_ans,
                              latency_retrieval = elapsed_ms rt t0 t1,
                              latency_rag = elapsed_ms rt t1 t2,
                              latency_llm = elapsed_ms rt t2 t3,
                              latency_total = elapsed_ms rt t0 t3,
                              used_model = LLM_MODEL c, used_embed = EMB_MODEL c,
                              used_top_k = top_k \<rparr>, cs2, w5))"

text \<open>
  \<open>api_query\<close>, lines 92 to 125. The result is the raised \<open>HTTPException\<close> or the
  response, with the log of the calls into \<open>core\<close> and the final state.
\<close>

definition api_query ::
  "('w, 't) runtime \<Rightarrow> ('w, 'hit, 'stats) core \<Rightarrow> payload \<Rightarrow> 'w \<Rightarrow>
   (http_exception + 'hit query_response) \<times> 'hit call list \<times> 'w" where
  "api_query rt c payload w =
     (case parse_query rt c payload of
        Inl h \<Rightarrow> (Inl h, [], w)
      | Inr (question, top_k) \<Rightarrow>
          let (t0, w1) = time_time rt w;
              (r_hits, w2) = retrieve c question top_k w1;
              cs1 = [Retrieve question top_k r_hits]
          in case r_hits of
               Inl e \<Rightarrow> (Inl (query_handler e), cs1, w2)
             | Inr hits \<Rightarrow>
                 let (r_ctx, w3) = build_context c hits w2;
                     cs2 = cs1 @ [BuildContext hits r_ctx]
                 in case r_ctx of
                      Inl e \<Rightarrow> (Inl (query_handler e), cs2, w3)
                    | Inr ctx \<Rightarrow> generate_answers rt c question top_k t0 hits ctx cs2 w3)"





section \<open>The build route\<close>

record 'stats build_response =
  ok :: bool
  stats :: 'stats
  ms :: int

text \<open>
  \<open>api_build\<close>, lines 82 to 89. The form fields default to 1200, 200 and
  \<open>core.EMB_MODEL\<close>; the framework fills them in before the function runs.
  Its only handler is \<open>except Exception\<close>, which catches an \<open>HTTPException\<close>
  like any other exception and reports its text.
\<close>

definition api_build ::
  "('w, 't) runtime \<Rightarrow> ('w, 'hit, 'stats) core \<Rightarrow> int \<Rightarrow> int \<Rightarrow> string \<Rightarrow> 'w \<Rightarrow>
   (http_exception + 'stats build_response) \<times> 'w" where
  "api_build rt c chunk_size overlap embed_model w =
     (let (t0, w1) = time_time rt w;
          (r, w2) = build_index_from_data c (DATA_DIR c) chunk_size overlap embed_model w1
      in case r of
           Inl e \<Rightarrow> (Inl (internal_error e), w2)
         | Inr st \<Rightarrow>
             let (t1, w3) = time_time rt w2
             in (Inr \<lparr> ok = True, stats = st, ms = elapsed_ms rt t0 t1 \<rparr>, w3))"

section \<open>Paths and the file system\<close>

text \<open>
  \<open>clear_data\<close> and \<open>upload\<close> act on the file system through \<open>os.path\<close>, \<open>os\<close>,
  \<open>shutil\<close> and \<open>open\<close>. The model is the POSIX one without symbolic links and
  without permissions: a path names the list of its components below the root, and
  the file system maps such lists to directories and files.
\<close>

type_synonym path = "string list"

type_synonym bytes = "char list"

datatype node = Dir | File bytes

record filesystem =
  cwd :: path
  entries :: "(path \<times> node) list"

text \<open>The \<open>OSError\<close> subclasses the operations raise, each with the path it is about.\<close>

datatype os_error =
    FileNotFoundError string
  | FileExistsError string
  | NotADirectoryError string
  | IsADirectoryError string

definition lookup :: "filesystem \<Rightarrow> path \<Rightarrow> node option" where
  "lookup fs p = map_of (entries fs) p"

text \<open>\<open>p.split(sep)\<close>: the pieces between the separators, one more than there are separators.\<close>

fun split_on :: "char \<Rightarrow> string \<Rightarrow> string list" where
  "split_on sep [] = [[]]"
| "split_on sep (x # xs) =
     (if x = sep then [] # split_on sep xs
      else (case split_on sep xs of
              [] \<Rightarrow> [[x]]
            | w # ws \<Rightarrow> (x # w) # ws))"

text \<open>
  How the system resolves a path string: an absolute path starts at the root, a
  relative one at the working directory; an empty component and \<open>.\<close> stay, \<open>..\<close>
  goes to the parent, any other component goes down.
\<close>

definition walk :: "path \<Rightarrow> string \<Rightarrow> path" where
  "walk here part =
     (if part = [] \<or> part = ''.'' then here
      else if part = ''..'' then butlast here
      else here @ [part])"

definition resolve :: "path \<Rightarrow> string \<Rightarrow> path" where
  "resolve wd p =
     foldl walk (if p \<noteq> [] \<and> hd p = CHR ''/'' then [] else wd) (split_on CHR ''/'' p)"

text \<open>\<open>os.path.isdir(p)\<close>\<close>

definition isdir :: "filesystem \<Rightarrow> string \<Rightarrow> bool" where
  "isdir fs p = (p \<noteq> [] \<and> lookup fs (resolve (cwd fs) p) = Some Dir)"

text \<open>\<open>shutil.rmtree(p)\<close> on a directory: the directory goes with everything below it.\<close>

definition rmtree :: "filesystem \<Rightarrow> string \<Rightarrow> filesystem" where
  "rmtree fs p =
     fs \<lparr> entries := filter (\<lambda>(q, n). \<not> prefix (resolve (cwd fs) p) q) (entries fs) \<rparr>"

text \<open>
  \<open>os.makedirs(p, exist_ok=True)\<close>: every directory on the way to \<open>p\<close>, and \<open>p\<close>
  itself, is created unless it is there already. A file in the way is an error
  (\<open>FileExistsError\<close> at \<open>p\<close> itself, \<open>NotADirectoryError\<close> above it); the
  directories made before it stay. An operation that returns nothing yields the
  exception it raised, if any, and the new file system.
\<close>

fun ensure_dirs :: "string \<Rightarrow> path list \<Rightarrow> (path \<times> node) list \<Rightarrow> os_error option \<times> (path \<times> node) list" where
  "ensure_dirs p [] es = (None, es)"
| "ensure_dirs p (q # qs) es =
     (case map_of es q of
        None \<Rightarrow> ensure_dirs p qs (es @ [(q, Dir)])
      | Some Dir \<Rightarrow> ensure_dirs p qs es
      | Some (File _) \<Rightarrow>
          (Some (if qs = [] then FileExistsError p else NotADirectoryError p), es))"

definition makedirs :: "filesystem \<Rightarrow> string \<Rightarrow> os_error option \<times> filesystem" where
  "makedirs fs p =
     (if p = [] then (Some (FileNotFoundError p), fs)
      else (let (err, es) = ensure_dirs p (prefixes (resolve (cwd fs) p)) (entries fs)
            in (err, fs \<lparr> entries := es \<rparr>)))"

text \<open>
  \<open>with open(dest, "wb") as out: out.write(content)\<close>: the file is created or
  replaced. The directory it goes into must exist, and \<open>dest\<close> must not name a
  directory.
\<close>

definition write_file :: "filesystem \<Rightarrow> string \<Rightarrow> bytes \<Rightarrow> os_error option \<times> filesystem" where
  "write_file fs dest content =
     (let leaf = last (split_on CHR ''/'' dest);
          q = resolve (cwd fs) dest
      in if leaf = [] \<or> leaf = ''.'' \<or> leaf = ''..'' then (Some (IsADirectoryError dest), fs)
         else (case lookup fs (butlast q) of
                 None \<Rightarrow> (Some (FileNotFoundError dest), fs)
               | Some (File _) \<Rightarrow> (Some (NotADirectoryError dest), fs)
               | Some Dir \<Rightarrow>
                   (case lookup fs q of
                      Some Dir \<Rightarrow> (Some (IsADirectoryError dest), fs)
                    | _ \<Rightarrow> (None, fs \<lparr> entries := AList.update q (File content) (entries fs) \<rparr>))))"

text \<open>A directory that exists and has nothing in it.\<close>

definition empty_dir :: "filesystem \<Rightarrow> path \<Rightarrow> bool" where
  "empty_dir fs q =
     (lookup fs q = Some Dir \<and> (\<forall>p \<in> set (map fst (entries fs)). \<not> strict_prefix q p))"

text \<open>
  The shape every file system has: whatever exists lies in directories that exist.
\<close>

definition well_formed :: "filesystem \<Rightarrow> bool" where
  "well_formed fs =
     (\<forall>p \<in> set (map fst (entries fs)). \<forall>q \<in> set (prefixes p). q \<noteq> p \<longrightarrow> lookup fs q = Some Dir)"

section \<open>The clear-data route\<close>

record clear_response =
  cleared :: bool

text \<open>
  \<open>clear_data\<close>, lines 55 to 62, once for each of the two directories: the tree is
  removed if it is a directory, then the directory is made.
\<close>

definition reset_dir :: "filesystem \<Rightarrow> string \<Rightarrow> os_error option \<times> filesystem" where
  "reset_dir fs d = makedirs (if isdir fs d then rmtree fs d else fs) d"

text \<open>The route has no handler: an \<open>OSError\<close> leaves it, and what was done stays done.\<close>

definition clear_data ::
  "'a core_consts_scheme \<Rightarrow> filesystem \<Rightarrow> (os_error + clear_response) \<times> filesystem" where
  "clear_data c fs =
     (case reset_dir fs (DATA_DIR c) of
        (Some e, fs1) \<Rightarrow> (Inl e, fs1)
      | (None, fs1) \<Rightarrow>
          (case reset_dir fs1 (ARTIFACTS_DIR c) of
             (Some e, fs2) \<Rightarrow> (Inl e, fs2)
           | (None, fs2) \<Rightarrow> (Inr \<lparr> cleared = True \<rparr>, fs2)))"

section \<open>The upload route\<close>

text \<open>\<open>os.path.basename(p)\<close>: what follows the last slash.\<close>

definition basename :: "string \<Rightarrow> string" where
  "basename p = rev (takeWhile (\<lambda>x. x \<noteq> CHR ''/'') (rev p))"

text \<open>
  \<open>os.path.splitext(p)\<close>: the extension starts at the last dot of the last
  component, unless only dots come before it there; then there is no extension.
\<close>

definition splitext :: "string \<Rightarrow> string \<times> string" where
  "splitext p =
     (let leaf = basename p;
          ext = CHR ''.'' # rev (takeWhile (\<lambda>x. x \<noteq> CHR ''.'') (rev leaf));
          stem = take (length leaf - length ext) leaf
      in if CHR ''.'' \<in> set leaf \<and> (\<exists>x \<in> set stem. x \<noteq> CHR ''.'')
         then (take (length p - length ext) p, ext)
         else (p, []))"

text \<open>
  \<open>str.lower()\<close> on the code points below 256: the letters A to Z and the accented
  capitals from 192 to 222, the multiplication sign at 215 apart, move up by 32.
\<close>

definition lower_char :: "char \<Rightarrow> char" where
  "lower_char x =
     (let n = (of_char x :: nat)
      in if (65 \<le> n \<and> n \<le> 90) \<or> (192 \<le> n \<and> n \<le> 222 \<and> n \<noteq> 215)
         then char_of (n + 32) else x)"

definition lower :: "string \<Rightarrow> string" where
  "lower s = map lower_char s"

text \<open>\<open>os.path.join(a, b)\<close>\<close>

definition os_path_join :: "string \<Rightarrow> string \<Rightarrow> string" where
  "os_path_join a b =
     (if b \<noteq> [] \<and> hd b = CHR ''/'' then b
      else if a = [] \<or> last a = CHR ''/'' then a @ b
      else a @ ''/'' @ b)"

record upload_file =
  filename :: "string option"
  content :: bytes

record saved_file =
  saved_name :: string
  saved_bytes :: nat

record upload_response =
  saved :: "saved_file list"
  data_dir :: string

text \<open>\<open>name = os.path.basename(uf.filename or "")\<close>\<close>

definition upload_name :: "upload_file \<Rightarrow> string" where
  "upload_name uf = basename (case filename uf of None \<Rightarrow> [] | Some f \<Rightarrow> f)"

text \<open>The test of line 70, negated: the file is kept.\<close>

definition accepted :: "'a core_consts_scheme \<Rightarrow> upload_file \<Rightarrow> bool" where
  "accepted c uf =
     (upload_name uf \<noteq> [] \<and> lower (snd (splitext (upload_name uf))) \<in> ALLOWED_EXTS c)"

text \<open>
  The loop of lines 67 to 76. \<open>acc\<close> is the list \<open>saved\<close>. An \<open>OSError\<close> of the
  write ends the loop and leaves the route; the files written before it stay.
\<close>

fun upload_loop ::
  "'a core_consts_scheme \<Rightarrow> upload_file list \<Rightarrow> saved_file list \<Rightarrow> filesystem \<Rightarrow>
   (os_error + saved_file list) \<times> filesystem" where
  "upload_loop c [] acc fs = (Inr acc, fs)"
| "upload_loop c (uf # ufs) acc fs =
     (if \<not> accepted c uf then upload_loop c ufs acc fs
      else (case write_file fs (os_path_join (DATA_DIR c) (upload_name uf)) (content uf) of
              (Some e, fs') \<Rightarrow> (Inl e, fs')
            | (None, fs') \<Rightarrow>
                upload_loop c ufs
                  (acc @ [\<lparr> saved_name = upload_name uf, saved_bytes = length (content uf) \<rparr>]) fs'))"

datatype upload_failure = Refused http_exception | Uncaught os_error

definition no_files_saved :: http_exception where
  "no_files_saved =
     HTTPException 400 ''No files saved (empty selection or unsupported extensions)''"

text \<open>\<open>upload\<close>, lines 65 to 79.\<close>

definition upload ::
  "'a core_consts_scheme \<Rightarrow> upload_file list \<Rightarrow> filesystem \<Rightarrow>
   (upload_failure + upload_response) \<times> filesystem" where
  "upload c files fs =
     (case upload_loop c files [] fs of
        (Inl e, fs') \<Rightarrow> (Inl (Uncaught e), fs')
      | (Inr acc, fs') \<Rightarrow>
          if acc = [] then (Inl (Refused no_files_saved), fs')
          else (Inr \<lparr> saved = acc, data_dir = DATA_DIR c \<rparr>, fs'))"

text \<open>
  Where \<open>upload\<close> writes a file it keeps: the directory \<open>core.DATA_DIR\<close> resolves
  to, then the name. And the entry of \<open>saved\<close> for a file.
\<close>

definition dest_path :: "'a core_consts_scheme \<Rightarrow> filesystem \<Rightarrow> upload_file \<Rightarrow> path" where
  "dest_path c fs uf = resolve (cwd fs) (DATA_DIR c) @ [upload_name uf]"

definition saved_entry :: "upload_file \<Rightarrow> saved_file" where
  "saved_entry uf = \<lparr> saved_name = upload_name uf, saved_bytes = length (content uf) \<rparr>"

section \<open>The chunker and the retriever of \<open>core\<close>\<close>

text \<open>
  Modelled from the spec: the error taxonomy of \<open>core\<close> (section 7 of the
  specification). The module \<open>core\<close> is imported by \<open>api.py\<close> and is not among the
  source files.
\<close>

datatype core_error =
    InvalidConfig
  | EmbeddingBackendError
  | IndexCorrupt
  | EmptyIndexError
  | GenerationBackendError

text \<open>
  Modelled from the spec: a chunk (section 3): its source document, its character
  range, its text and its sequence index. The chunker of \<open>core\<close> is missing.
\<close>

record text_chunk =
  source :: string
  start_offset :: nat
  end_offset :: nat
  chunk_text :: string
  seq_index :: nat

text \<open>
  Modelled from the spec: the window of the chunker of \<open>core\<close> (section 4.1), which
  is missing. A window of length \<open>width\<close> starts at \<open>start\<close> in a text of length \<open>n\<close>;
  it advances by \<open>width - overlap\<close> until it reaches the end of the text, and the
  last chunk may be shorter.
\<close>

function chunk_offsets :: "nat \<Rightarrow> nat \<Rightarrow> nat \<Rightarrow> nat \<Rightarrow> (nat \<times> nat) list" where
  "chunk_offsets n width overlap start =
     (if start + width < n \<and> overlap < width
      then (start, start + width) # chunk_offsets n width overlap (start + (width - overlap))
      else [(start, min n (start + width))])"
  by pat_completeness auto
termination
  by (relation "measure (\<lambda>(n, width, overlap, start). n - start)") auto

declare chunk_offsets.simps [simp del]

text \<open>
  Modelled from the spec: \<open>chunk(text, chunk_size, overlap)\<close> of the chunker of
  \<open>core\<close> (section 4.1), which is missing. Both parameters are positive and the
  overlap is smaller than the chunk size, else the configuration is refused.
\<close>

definition chunk :: "string \<Rightarrow> string \<Rightarrow> int \<Rightarrow> int \<Rightarrow> core_error + text_chunk list" where
  "chunk doc text chunk_size overlap =
     (if chunk_size \<le> 0 \<or> overlap \<le> 0 \<or> chunk_size \<le> overlap then Inl InvalidConfig
      else Inr (map (\<lambda>(i, (s, e)).
                  \<lparr> source = doc, start_offset = s, end_offset = e,
                    chunk_text = take (e - s) (drop s text), seq_index = i \<rparr>)
                (enumerate 0 (chunk_offsets (length text) (nat chunk_size) (nat overlap) 0))))"

text \<open>
  Modelled from the spec: the ordering of the retriever of \<open>core\<close> (section 4.4),
  which is missing: descending by score, and among equal scores the row inserted
  first comes first. A hit goes in front of the first hit whose score is not
  greater than its own.
\<close>

fun rank_insert :: "'m \<times> ('s::linorder) \<Rightarrow> ('m \<times> 's) list \<Rightarrow> ('m \<times> 's) list" where
  "rank_insert h [] = [h]"
| "rank_insert h (g # gs) = (if snd g \<le> snd h then h # g # gs else g # rank_insert h gs)"

fun rank :: "('m \<times> ('s::linorder)) list \<Rightarrow> ('m \<times> 's) list" where
  "rank [] = []"
| "rank (h # hs) = rank_insert h (rank hs)"

text \<open>
  Modelled from the spec: \<open>retrieve(query_vector, top_k)\<close> of the retriever of \<open>core\<close>
  (section 4.4), which is missing. The loaded index is the list of its rows
  (metadata and vector) in insertion order, or \<open>None\<close> when no index is loaded.
  The cosine similarity is floating-point arithmetic; it is the parameter \<open>sim\<close>,
  into any linearly ordered type of scores. A \<open>top_k\<close> that is not positive is
  refused.
\<close>

type_synonym ('m, 'v) index = "('m \<times> 'v) list"

definition retrieve_top_k ::
  "('v \<Rightarrow> 'v \<Rightarrow> 's::linorder) \<Rightarrow> ('m, 'v) index option \<Rightarrow> 'v \<Rightarrow> int \<Rightarrow>
   core_error + ('m \<times> 's) list" where
  "retrieve_top_k sim idx query_vector top_k =
     (case idx of
        None \<Rightarrow> Inl EmptyIndexError
      | Some rows \<Rightarrow>
          if top_k \<le> 0 then Inl InvalidConfig
          else Inr (take (nat top_k) (rank (map (\<lambda>(m, v). (m, sim query_vector v)) rows))))"

text \<open>Whether a list of hits is in descending order of score.\<close>

definition descending :: "('m \<times> ('s::linorder)) list \<Rightarrow> bool" where
  "descending hs = sorted_wrt (\<lambda>a b. snd b \<le> snd a) hs"

section \<open>A small installation\<close>

text \<open>
  Concrete instances, on which the properties below are exercised: a clock that
  ticks once per reading, a \<open>core\<close> with two chunks to retrieve and a generation
  backend that answers, the same \<open>core\<close> with both backends unreachable, a file
  system, and a few requests.
\<close>

definition demo_runtime :: "(nat, nat) runtime" where
  "demo_runtime =
     \<lparr> time_time = (\<lambda>w. (w, Suc w)),
       elapsed_ms = (\<lambda>t0 t1. int t1 - int t0),
       int_other = (\<lambda>v. Inl (PyException ''ValueError'' ''invalid literal for int()'' None)) \<rparr>"

definition demo_core :: "(nat, string, nat) core" where
  "demo_core =
     \<lparr> DATA_DIR = ''data'', ARTIFACTS_DIR = ''artifacts'',
       ALLOWED_EXTS = {''.txt'', ''.md''}, TOP_K_DEFAULT = 4,
       SYSTEM_PROMPT_RAG = ''Use the context.'', SYSTEM_PROMPT_BARE = ''Answer.'',
       LLM_MODEL = ''llm'', EMB_MODEL = ''emb'',
       retrieve = (\<lambda>q k w. (Inr (take (nat k) [''alpha'', ''beta'']), w)),
       build_context = (\<lambda>hits w. (Inr (concat hits), w)),
       ollama_chat = (\<lambda>sys usr w. (Inr (''re: '' @ usr), w)),
       build_index_from_data = (\<lambda>d cs ov em w. (Inr 3, w)) \<rparr>"

definition offline_core :: "(nat, string, nat) core" where
  "offline_core =
     demo_core
       \<lparr> ollama_chat :=
           (\<lambda>sys usr w. (Inl (PyException ''ConnectionError'' ''ollama is unreachable'' None), w)),
         build_index_from_data :=
           (\<lambda>d cs ov em w. (Inl (PyException ''ConnectionError'' ''embedder is unreachable'' None), w)) \<rparr>"



definition blank_payload :: payload where
  "blank_payload = [''question'' \<mapsto> PStr ''  '', ''top_k'' \<mapsto> PInt 2]"



definition demo_fs :: filesystem where
  "demo_fs =
     \<lparr> cwd = [''srv''],
       entries = [([], Dir), ([''srv''], Dir),
                  ([''srv'', ''data''], Dir),
                  ([''srv'', ''data'', ''a.txt''], File ''hello''),
                  ([''srv'', ''artifacts''], Dir),
                  ([''srv'', ''artifacts'', ''index.bin''], File ''xyz'')] \<rparr>"

definition cleared_fs :: filesystem where
  "cleared_fs =
     \<lparr> cwd = [''srv''],
       entries = [([], Dir), ([''srv''], Dir),
                  ([''srv'', ''data''], Dir), ([''srv'', ''artifacts''], Dir)] \<rparr>"

definition demo_files :: "upload_file list" where
  "demo_files =
     [\<lparr> filename = Some ''../../etc/Notes.TXT'', content = ''remember'' \<rparr>,
      \<lparr> filename = Some ''run.exe'', content = ''MZ'' \<rparr>,
      \<lparr> filename = None, content = [] \<rparr>]"

definition uploaded_fs :: filesystem where
  "uploaded_fs =
     \<lparr> cwd = [''srv''],
       entries = [([], Dir), ([''srv''], Dir),
                  ([''srv'', ''data''], Dir),
                  ([''srv'', ''data'', ''a.txt''], File ''hello''),
                  ([''srv'', ''artifacts''], Dir),
                  ([''srv'', ''artifacts'', ''index.bin''], File ''xyz''),
                  ([''srv'', ''data'', ''Notes.TXT''], File ''remember'')] \<rparr>"

text \<open>An index of four rows whose vectors are their scores.\<close>

definition demo_rows :: "(string, nat) index" where
  "demo_rows = [(''a'', 1), (''b'', 3), (''c'', 1), (''d'', 2)]"

definition score_is_vector :: "nat \<Rightarrow> nat \<Rightarrow> nat" where
  "score_is_vector q v = v"

section \<open>Properties of the query and build routes\<close>

lemma strip_empty_iff: "strip s = [] \<longleftrightarrow> (\<forall>c\<in>set s. isspace c)"
proof
  assume "strip s = []"
  then have "dropWhile isspace (rev (dropWhile isspace s)) = []"
    by (simp add: strip_def rstrip_def lstrip_def)
  then have "\<forall>c\<in>set (dropWhile isspace s). isspace c"
    by (simp add: dropWhile_eq_Nil_conv)
  then show "\<forall>c\<in>set s. isspace c"
    by (metis dropWhile_eq_Nil_conv hd_dropWhile hd_in_set)
next
  assume "\<forall>c\<in>set s. isspace c"
  then show "strip s = []"
    by (auto simp: strip_def rstrip_def lstrip_def dest: set_dropWhileD)
qed

lemma parse_blank:
  assumes "payload ''question'' = None \<or> payload ''question'' = Some PNone \<or>
     (\<exists>s. payload ''question'' = Some (PStr s) \<and> (\<forall>c\<in>set s. isspace c))"
  shows "parse_query rt c payload = Inl question_required"
  using assms
  by (auto simp: parse_query_def get_or_def strip_empty_iff)



text \<open>
  C8. If the question of the payload is absent, is \<open>None\<close>, or is a string of
  whitespace only, \<open>api_query\<close> raises status 400 with the detail
  \<open>'question' is required\<close>; it has made no call into \<open>core\<close> (no retrieval, no
  generation) and the state is as it was.
\<close>

theorem blank_question_rejected:
  assumes "payload ''question'' = None \<or> payload ''question'' = Some PNone \<or>
     (\<exists>s. payload ''question'' = Some (PStr s) \<and> (\<forall>x \<in> set s. isspace x))"
  shows "api_query rt c payload w =
     (Inl (HTTPException 400 ([CHR 0x27] @ ''question'' @ [CHR 0x27] @ '' is required'')), [], w)"
  using assms parse_blank [of payload rt c]
  by (simp add: api_query_def question_required_def)

theorem blank_question_rejected_witness:
  "api_query demo_runtime demo_core blank_payload 0 =
     (Inl (HTTPException 400 ([CHR 0x27] @ ''question'' @ [CHR 0x27] @ '' is required'')), [], 0)
   \<and> api_query demo_runtime demo_core Map.empty 0 =
     (Inl (HTTPException 400 ([CHR 0x27] @ ''question'' @ [CHR 0x27] @ '' is required'')), [], 0)"
proof -
  have h: "blank_payload ''question'' = None \<or> blank_payload ''question'' = Some PNone \<or>
     (\<exists>s. blank_payload ''question'' = Some (PStr s) \<and> (\<forall>x \<in> set s. isspace x))"
    by (simp add: blank_payload_def isspace_def)
  have e: "Map.empty ''question'' = None \<or> Map.empty ''question'' = Some PNone \<or>
     (\<exists>s. Map.empty ''question'' = Some (PStr s) \<and> (\<forall>x \<in> set s. isspace x))"
    by simp
  show ?thesis
    using h e
      blank_question_rejected [where payload = blank_payload and rt = demo_runtime
        and c = demo_core and w = 0]
      blank_question_rejected [where payload = Map.empty and rt = demo_runtime
        and c = demo_core and w = 0]
    by simp
qed









text \<open>
  C5. If building the index raises, \<open>api_build\<close> raises status 500 whose detail is
  the text of that exception. And a response of \<open>api_build\<close> reports a build that
  returned: its statistics are the ones the build returned, with \<open>ok\<close> set.
\<close>

theorem build_error_propagates:
  "(fst (build_index_from_data c (DATA_DIR c) chunk_size overlap embed_model (snd (time_time rt w))) = Inl e
      \<longrightarrow> fst (api_build rt c chunk_size overlap embed_model w) = Inl (HTTPException 500 (exc_str e)))
   \<and> (fst (api_build rt c chunk_size overlap embed_model w) = Inr resp
      \<longrightarrow> fst (build_index_from_data c (DATA_DIR c) chunk_size overlap embed_model (snd (time_time rt w)))
            = Inr (stats resp) \<and> ok resp)"
  by (auto simp: api_build_def Let_def internal_error_def split: prod.splits sum.splits)

theorem build_error_propagates_witness:
  "fst (api_build demo_runtime offline_core 1200 200 ''emb'' 0) =
     Inl (HTTPException 500 ''embedder is unreachable'')
   \<and> fst (api_build demo_runtime demo_core 1200 200 ''emb'' 0) =
     Inr \<lparr> ok = True, stats = 3, ms = 1 \<rparr>"
proof -
  have f: "fst (build_index_from_data offline_core (DATA_DIR offline_core) 1200 200 ''emb''
                  (snd (time_time demo_runtime 0)))
           = Inl (PyException ''ConnectionError'' ''embedder is unreachable'' None)"
    by (simp add: offline_core_def demo_core_def)
  have g: "fst (api_build demo_runtime demo_core 1200 200 ''emb'' 0) = Inr \<lparr> ok = True, stats = 3, ms = 1 \<rparr>"
    by (simp add: api_build_def demo_runtime_def demo_core_def)
  show ?thesis
    using f g
      build_error_propagates [where c = offline_core and rt = demo_runtime and w = 0
        and chunk_size = 1200 and overlap = 200 and embed_model = "''emb''"
        and e = "PyException ''ConnectionError'' ''embedder is unreachable'' None"]
      build_error_propagates [where c = demo_core and rt = demo_runtime and w = 0
        and chunk_size = 1200 and overlap = 200 and embed_model = "''emb''"
        and resp = "\<lparr> ok = True, stats = 3, ms = 1 \<rparr>"]
    by simp
qed





section \<open>Properties of the file system and of clearing\<close>

lemma map_of_filter_key:
  "map_of (filter (\<lambda>(k, v). P k) es) q = (if P q then map_of es q else None)"
  by (induction es) auto

lemma lookup_rmtree:
  "lookup (rmtree fs p) q = (if prefix (resolve (cwd fs) p) q then None else lookup fs q)"
  using map_of_filter_key [of "\<lambda>k. \<not> prefix (resolve (cwd fs) p) k" "entries fs" q]
  by (simp add: lookup_def rmtree_def)

lemma keys_rmtree:
  "set (map fst (entries (rmtree fs p))) =
     {q \<in> set (map fst (entries fs)). \<not> prefix (resolve (cwd fs) p) q}"
  by (auto simp: rmtree_def)

lemma cwd_rmtree: "cwd (rmtree fs p) = cwd fs"
  by (simp add: rmtree_def)

lemma well_formedD:
  "well_formed fs \<Longrightarrow> k \<in> set (map fst (entries fs)) \<Longrightarrow> strict_prefix q k \<Longrightarrow>
   lookup fs q = Some Dir"
  unfolding well_formed_def by (metis in_set_prefixes strict_prefix_def)

lemma well_formedI:
  "(\<And>k q. k \<in> set (map fst (entries fs)) \<Longrightarrow> strict_prefix q k \<Longrightarrow> lookup fs q = Some Dir)
   \<Longrightarrow> well_formed fs"
  unfolding well_formed_def by (metis in_set_prefixes strict_prefix_def)

lemma well_formed_rmtree:
  assumes "well_formed fs"
  shows "well_formed (rmtree fs p)"
proof (rule well_formedI)
  fix k q
  assume k: "k \<in> set (map fst (entries (rmtree fs p)))" and q: "strict_prefix q k"
  from k have k0: "k \<in> set (map fst (entries fs))" and nk: "\<not> prefix (resolve (cwd fs) p) k"
    using keys_rmtree [of fs p] by auto
  from q nk have "\<not> prefix (resolve (cwd fs) p) q"
    using prefix_order.trans strict_prefix_def by metis
  moreover from assms k0 q have "lookup fs q = Some Dir"
    by (rule well_formedD)
  ultimately show "lookup (rmtree fs p) q = Some Dir"
    by (simp add: lookup_rmtree)
qed

lemma ensure_dirs_keep:
  "ensure_dirs p qs es = (err, es') \<Longrightarrow> map_of es k = Some n \<Longrightarrow> map_of es' k = Some n"
proof (induction qs arbitrary: es)
  case Nil
  then show ?case by simp
next
  case (Cons q qs)
  show ?case
  proof (cases "map_of es q")
    case None
    with Cons.prems have "ensure_dirs p qs (es @ [(q, Dir)]) = (err, es')" by simp
    moreover from Cons.prems have "map_of (es @ [(q, Dir)]) k = Some n"
      by (simp add: map_add_Some_iff)
    ultimately show ?thesis by (rule Cons.IH)
  next
    case (Some m)
    with Cons.prems Cons.IH show ?thesis
      by (cases m) auto
  qed
qed

lemma ensure_dirs_made:
  "ensure_dirs p qs es = (None, es') \<Longrightarrow> q \<in> set qs \<Longrightarrow> map_of es' q = Some Dir"
proof (induction qs arbitrary: es)
  case Nil
  then show ?case by simp
next
  case (Cons a qs)
  show ?case
  proof (cases "map_of es a")
    case None
    with Cons.prems have run: "ensure_dirs p qs (es @ [(a, Dir)]) = (None, es')" by simp
    show ?thesis
    proof (cases "q = a")
      case True
      have "map_of (es @ [(a, Dir)]) a = Some Dir"
        using None by (simp add: map_add_Some_iff)
      with run True show ?thesis by (simp add: ensure_dirs_keep)
    next
      case False
      with Cons.prems have "q \<in> set qs" by simp
      with run show ?thesis by (rule Cons.IH)
    qed
  next
    case (Some m)
    show ?thesis
    proof (cases m)
      case Dir
      with Some Cons.prems have run: "ensure_dirs p qs es = (None, es')" by simp
      show ?thesis
      proof (cases "q = a")
        case True
        with run Some Dir show ?thesis by (simp add: ensure_dirs_keep)
      next
        case False
        with Cons.prems have "q \<in> set qs" by simp
        with run show ?thesis by (rule Cons.IH)
      qed
    next
      case (File b)
      with Some Cons.prems show ?thesis by simp
    qed
  qed
qed

lemma ensure_dirs_keys:
  "ensure_dirs p qs es = (err, es') \<Longrightarrow> set (map fst es') \<subseteq> set (map fst es) \<union> set qs"
proof (induction qs arbitrary: es)
  case Nil
  then show ?case by simp
next
  case (Cons a qs)
  show ?case
  proof (cases "map_of es a")
    case None
    with Cons.prems have "ensure_dirs p qs (es @ [(a, Dir)]) = (err, es')" by simp
    from Cons.IH [OF this] show ?thesis by auto
  next
    case (Some m)
    with Cons.prems Cons.IH show ?thesis
      by (cases m) auto
  qed
qed

lemma ensure_dirs_keys_mono:
  "ensure_dirs p qs es = (err, es') \<Longrightarrow> set (map fst es) \<subseteq> set (map fst es')"
proof (induction qs arbitrary: es)
  case Nil
  then show ?case by simp
next
  case (Cons a qs)
  show ?case
  proof (cases "map_of es a")
    case None
    with Cons.prems have "ensure_dirs p qs (es @ [(a, Dir)]) = (err, es')" by simp
    from Cons.IH [OF this] show ?thesis by auto
  next
    case (Some m)
    with Cons.prems Cons.IH show ?thesis
      by (cases m) auto
  qed
qed

lemma ensure_dirs_other:
  "ensure_dirs p qs es = (err, es') \<Longrightarrow> k \<notin> set qs \<Longrightarrow> map_of es' k = map_of es k"
proof (induction qs arbitrary: es)
  case Nil
  then show ?case by simp
next
  case (Cons a qs)
  show ?case
  proof (cases "map_of es a")
    case None
    with Cons.prems have "ensure_dirs p qs (es @ [(a, Dir)]) = (err, es')" by simp
    moreover from Cons.prems have "k \<notin> set qs" "k \<noteq> a" by auto
    ultimately have "map_of es' k = map_of (es @ [(a, Dir)]) k" using Cons.IH by blast
    with \<open>k \<noteq> a\<close> show ?thesis by (simp add: map_add_def split: option.splits)
  next
    case (Some m)
    with Cons.prems Cons.IH show ?thesis
      by (cases m) auto
  qed
qed


lemma reset_dir_props:
  assumes wf: "well_formed fs" and ok: "reset_dir fs p = (None, fs')"
  shows "well_formed fs'"
    and "empty_dir fs' (resolve (cwd fs) p)"
    and "cwd fs' = cwd fs"
    and "set (map fst (entries fs')) \<subseteq> set (map fst (entries fs)) \<union> set (prefixes (resolve (cwd fs) p))"
    and "\<And>q. lookup fs q = Some Dir \<Longrightarrow> \<not> prefix (resolve (cwd fs) p) q \<Longrightarrow> lookup fs' q = Some Dir"
proof -
  define d where "d = resolve (cwd fs) p"
  define fs0 where "fs0 = (if isdir fs p then rmtree fs p else fs)"
  have cwd0: "cwd fs0 = cwd fs" by (simp add: fs0_def cwd_rmtree)
  have wf0: "well_formed fs0" using wf by (simp add: fs0_def well_formed_rmtree)
  from ok have mk: "makedirs fs0 p = (None, fs')" by (simp add: reset_dir_def fs0_def)
  then have pne: "p \<noteq> []" by (auto simp: makedirs_def)
  obtain es where run: "ensure_dirs p (prefixes d) (entries fs0) = (None, es)"
    and fs': "fs' = fs0 \<lparr> entries := es \<rparr>"
    using mk pne by (auto simp: makedirs_def d_def cwd0 split: prod.splits)
  show c: "cwd fs' = cwd fs" by (simp add: fs' cwd0)
  have keys0: "set (map fst (entries fs0)) \<subseteq> set (map fst (entries fs))"
    using keys_rmtree [of fs p] by (auto simp: fs0_def)
  have keys': "set (map fst (entries fs')) \<subseteq> set (map fst (entries fs0)) \<union> set (prefixes d)"
    using ensure_dirs_keys [OF run] by (simp add: fs')
  show "set (map fst (entries fs')) \<subseteq> set (map fst (entries fs)) \<union> set (prefixes (resolve (cwd fs) p))"
    using keys0 keys' unfolding d_def by blast
  have made: "lookup fs' q = Some Dir" if "prefix q d" for q
    using ensure_dirs_made [OF run, of q] that by (simp add: lookup_def fs' in_set_prefixes)
  have keep: "lookup fs' q = Some n" if "lookup fs0 q = Some n" for q n
    using ensure_dirs_keep [OF run, of q n] that by (simp add: lookup_def fs')
  have other: "lookup fs' q = lookup fs0 q" if "\<not> prefix q d" for q
    using ensure_dirs_other [OF run, of q] that by (simp add: lookup_def fs' in_set_prefixes)
  have below0: "\<not> strict_prefix d k" if k: "k \<in> set (map fst (entries fs0))" for k
  proof (cases "isdir fs p")
    case True
    with k have "\<not> prefix d k" using keys_rmtree [of fs p] by (auto simp: fs0_def d_def)
    then show ?thesis by (simp add: strict_prefix_def)
  next
    case False
    then have "fs0 = fs" by (simp add: fs0_def)
    show ?thesis
    proof
      assume "strict_prefix d k"
      with wf0 k have "lookup fs0 d = Some Dir" by (rule well_formedD)
      with \<open>fs0 = fs\<close> pne have "isdir fs p" by (simp add: isdir_def d_def)
      with False show False by simp
    qed
  qed
  show "empty_dir fs' (resolve (cwd fs) p)"
    unfolding empty_dir_def d_def [symmetric]
  proof (intro conjI ballI)
    show "lookup fs' d = Some Dir" by (rule made) simp
  next
    fix k assume "k \<in> set (map fst (entries fs'))"
    with keys' have "k \<in> set (map fst (entries fs0)) \<or> prefix k d"
      by (auto simp: in_set_prefixes)
    then show "\<not> strict_prefix d k"
    proof
      assume "k \<in> set (map fst (entries fs0))"
      then show ?thesis by (rule below0)
    next
      assume "prefix k d"
      then show ?thesis by (auto simp: strict_prefix_def)
    qed
  qed
  show "well_formed fs'"
  proof (rule well_formedI)
    fix k q
    assume k: "k \<in> set (map fst (entries fs'))" and q: "strict_prefix q k"
    from k keys' have "k \<in> set (map fst (entries fs0)) \<or> prefix k d"
      by (auto simp: in_set_prefixes)
    then show "lookup fs' q = Some Dir"
    proof
      assume "k \<in> set (map fst (entries fs0))"
      with wf0 have "lookup fs0 q = Some Dir" using q by (rule well_formedD)
      then show ?thesis by (rule keep)
    next
      assume "prefix k d"
      with q have "prefix q d" by (meson prefix_order.trans strict_prefix_def prefix_order.less_imp_le)
      then show ?thesis by (rule made)
    qed
  qed
  show "lookup fs' q = Some Dir" if a: "lookup fs q = Some Dir" and b: "\<not> prefix (resolve (cwd fs) p) q" for q
  proof -
    from a b have "lookup fs0 q = Some Dir"
      by (simp add: fs0_def lookup_rmtree)
    then show ?thesis by (rule keep)
  qed
qed



text \<open>
  C7. When \<open>clear_data\<close> returns, on a well-formed file system and with the data
  directory and the artifacts directory not inside one another, both directories
  exist and are empty, so every uploaded document and the persisted index are
  gone, and the response has \<open>cleared\<close> set.
\<close>

theorem clear_data_empties_both:
  assumes "well_formed fs"
    and "clear_data c fs = (Inr resp, fs')"
    and "\<not> strict_prefix (resolve (cwd fs) (DATA_DIR c)) (resolve (cwd fs) (ARTIFACTS_DIR c))"
    and "\<not> strict_prefix (resolve (cwd fs) (ARTIFACTS_DIR c)) (resolve (cwd fs) (DATA_DIR c))"
  shows "empty_dir fs' (resolve (cwd fs) (DATA_DIR c)) \<and>
         empty_dir fs' (resolve (cwd fs) (ARTIFACTS_DIR c)) \<and> cleared resp"
proof -
  define d where "d = resolve (cwd fs) (DATA_DIR c)"
  define a where "a = resolve (cwd fs) (ARTIFACTS_DIR c)"
  from assms(2) obtain fs1 where r1: "reset_dir fs (DATA_DIR c) = (None, fs1)"
    and r2: "reset_dir fs1 (ARTIFACTS_DIR c) = (None, fs')" and resp: "cleared resp"
    by (auto simp: clear_data_def split: prod.splits option.splits)
  note p1 = reset_dir_props [OF assms(1) r1]
  have cwd1: "cwd fs1 = cwd fs" by (rule p1(3))
  note p2 = reset_dir_props [OF p1(1) r2, unfolded cwd1]
  have ea: "empty_dir fs' a" unfolding a_def by (rule p2(2))
  have d1: "lookup fs1 d = Some Dir" and below1: "\<forall>k \<in> set (map fst (entries fs1)). \<not> strict_prefix d k"
    using p1(2) by (simp_all add: empty_dir_def d_def)
  have "lookup fs' d = Some Dir"
  proof (cases "prefix a d")
    case True
    with assms(4) have "a = d" by (simp add: strict_prefix_def a_def d_def)
    with ea show ?thesis by (simp add: empty_dir_def)
  next
    case False
    with d1 show ?thesis using p2(5) [of d] by (simp add: a_def)
  qed
  moreover have "\<not> strict_prefix d k" if k: "k \<in> set (map fst (entries fs'))" for k
  proof -
    from k p2(4) have "k \<in> set (map fst (entries fs1)) \<or> prefix k a"
      unfolding a_def [symmetric] by (auto simp: in_set_prefixes)
    then show ?thesis
    proof
      assume "k \<in> set (map fst (entries fs1))"
      with below1 show ?thesis by blast
    next
      assume ka: "prefix k a"
      show ?thesis
      proof
        assume "strict_prefix d k"
        with ka have "strict_prefix d a"
          using prefix_order.less_le_trans by blast
        with assms(3) show False by (simp add: a_def d_def)
      qed
    qed
  qed
  ultimately have "empty_dir fs' d" by (simp add: empty_dir_def)
  with ea resp show ?thesis by (simp add: a_def d_def)
qed

theorem clear_data_empties_both_witness:
  "well_formed demo_fs \<and>
   clear_data demo_core demo_fs = (Inr \<lparr> cleared = True \<rparr>, cleared_fs) \<and>
   empty_dir cleared_fs [''srv'', ''data''] \<and> empty_dir cleared_fs [''srv'', ''artifacts'']"
proof -
  have wf: "well_formed demo_fs" by code_simp
  have run: "clear_data demo_core demo_fs = (Inr \<lparr> cleared = True \<rparr>, cleared_fs)" by code_simp
  have d: "resolve (cwd demo_fs) (DATA_DIR demo_core) = [''srv'', ''data'']" by code_simp
  have a: "resolve (cwd demo_fs) (ARTIFACTS_DIR demo_core) = [''srv'', ''artifacts'']" by code_simp
  show ?thesis
    using wf run clear_data_empties_both [OF wf run] by (simp add: d a)
qed

section \<open>Properties of uploading\<close>

lemma basename_no_slash: "CHR ''/'' \<notin> set (basename p)"
proof -
  have "CHR ''/'' \<notin> set (takeWhile (\<lambda>x. x \<noteq> CHR ''/'') (rev p))"
    by (auto dest: set_takeWhileD)
  then show ?thesis by (simp add: basename_def)
qed

lemma split_on_not_Nil: "split_on s xs \<noteq> []"
  by (induction xs) (auto split: list.splits)

lemma split_on_no_sep: "s \<notin> set xs \<Longrightarrow> split_on s xs = [xs]"
  by (induction xs) auto


lemma split_on_sep_append:
  "s \<notin> set ys \<Longrightarrow> split_on s (xs @ s # ys) = split_on s xs @ [ys]"
proof (induction xs)
  case Nil
  then show ?case by (simp add: split_on_no_sep)
next
  case (Cons x xs)
  then show ?case
    by (cases "split_on s xs") (auto simp: split_on_not_Nil)
qed

lemma walk_empty: "walk here [] = here"
  by (simp add: walk_def)

lemma walk_name: "n \<noteq> [] \<Longrightarrow> n \<noteq> ''.'' \<Longrightarrow> n \<noteq> ''..'' \<Longrightarrow> walk here n = here @ [n]"
  by (simp add: walk_def)

lemma split_join:
  assumes "CHR ''/'' \<notin> set n" and "n \<noteq> []"
  shows "\<exists>pre. split_on CHR ''/'' (os_path_join d n) = pre @ [n] \<and>
           foldl walk (if os_path_join d n \<noteq> [] \<and> hd (os_path_join d n) = CHR ''/'' then [] else wd) pre
             = resolve wd d"
proof -
  from assms have hd_n: "hd n \<noteq> CHR ''/''" by (cases n) auto
  show ?thesis
  proof (cases "d = []")
    case True
    with hd_n assms have "split_on CHR ''/'' (os_path_join d n) = [] @ [n]"
      by (simp add: os_path_join_def split_on_no_sep)
    moreover have "foldl walk (if os_path_join d n \<noteq> [] \<and> hd (os_path_join d n) = CHR ''/'' then [] else wd) []
        = resolve wd d"
      using True hd_n assms by (simp add: os_path_join_def resolve_def walk_empty)
    ultimately show ?thesis by blast
  next
    case False
    then have h: "os_path_join d n \<noteq> []" "hd (os_path_join d n) = hd d"
      using hd_n by (auto simp: os_path_join_def)
    show ?thesis
    proof (cases "last d = CHR ''/''")
      case True
      with False obtain b where d: "d = b @ [CHR ''/'']"
        by (metis append_butlast_last_id)
      have j: "os_path_join d n = b @ CHR ''/'' # n"
        using hd_n by (simp add: os_path_join_def d)
      have s1: "split_on CHR ''/'' (os_path_join d n) = split_on CHR ''/'' b @ [n]"
        using assms(1) by (simp add: j split_on_sep_append)
      have s2: "split_on CHR ''/'' d = split_on CHR ''/'' b @ [[]]"
        using split_on_sep_append [of "CHR ''/''" "[]" b] by (simp add: d)
      have "foldl walk (if os_path_join d n \<noteq> [] \<and> hd (os_path_join d n) = CHR ''/'' then [] else wd)
              (split_on CHR ''/'' b) = resolve wd d"
        using False h by (simp add: resolve_def s2 walk_empty)
      with s1 show ?thesis by blast
    next
      case nl: False
      have j: "os_path_join d n = d @ CHR ''/'' # n"
        using nl False hd_n by (simp add: os_path_join_def)
      have s1: "split_on CHR ''/'' (os_path_join d n) = split_on CHR ''/'' d @ [n]"
        using assms(1) by (simp add: j split_on_sep_append)
      have "foldl walk (if os_path_join d n \<noteq> [] \<and> hd (os_path_join d n) = CHR ''/'' then [] else wd)
              (split_on CHR ''/'' d) = resolve wd d"
        using False h by (simp add: resolve_def)
      with s1 show ?thesis by blast
    qed
  qed
qed

lemma last_split_join:
  assumes "CHR ''/'' \<notin> set n" and "n \<noteq> []"
  shows "last (split_on CHR ''/'' (os_path_join d n)) = n"
  using split_join [OF assms, of d "[]"] by auto

lemma resolve_join:
  assumes "CHR ''/'' \<notin> set n" and "n \<noteq> []" and "n \<noteq> ''.''" and "n \<noteq> ''..''"
  shows "resolve wd (os_path_join d n) = resolve wd d @ [n]"
proof -
  from split_join [OF assms(1,2), of d wd] obtain pre
    where 1: "split_on CHR ''/'' (os_path_join d n) = pre @ [n]"
      and 2: "foldl walk (if os_path_join d n \<noteq> [] \<and> hd (os_path_join d n) = CHR ''/'' then [] else wd) pre
             = resolve wd d"
    by blast
  have "resolve wd (os_path_join d n) =
      walk (foldl walk (if os_path_join d n \<noteq> [] \<and> hd (os_path_join d n) = CHR ''/'' then [] else wd) pre) n"
    unfolding resolve_def 1 by simp
  also have "\<dots> = resolve wd d @ [n]"
    unfolding 2 using assms by (simp add: walk_name)
  finally show ?thesis .
qed

lemma write_file_effect:
  assumes "write_file fs dest body = (err, fs')"
  shows "cwd fs' = cwd fs"
    and "p \<noteq> resolve (cwd fs) dest \<Longrightarrow> lookup fs' p = lookup fs p"
    and "err \<noteq> None \<Longrightarrow> fs' = fs"
    and "err = None \<Longrightarrow> lookup fs' (resolve (cwd fs) dest) = Some (File body)"
    and "err = None \<Longrightarrow> last (split_on CHR ''/'' dest) \<notin> {[], ''.'', ''..''}"
  using assms
  by (auto simp: write_file_def Let_def lookup_def update_conv'
           split: if_splits option.splits node.splits)

lemma upload_write:
  assumes w: "write_file fs (os_path_join (DATA_DIR c) (upload_name uf)) (content uf) = (err, fs')"
    and n: "upload_name uf \<noteq> []"
  shows "cwd fs' = cwd fs"
    and "p \<noteq> dest_path c fs uf \<Longrightarrow> lookup fs' p = lookup fs p"
    and "err = None \<Longrightarrow> lookup fs' (dest_path c fs uf) = Some (File (content uf))"
    and "err \<noteq> None \<Longrightarrow> fs' = fs"
proof -
  let ?n = "upload_name uf"
  let ?dest = "os_path_join (DATA_DIR c) ?n"
  note eff = write_file_effect [OF w]
  show "cwd fs' = cwd fs" by (rule eff(1))
  show "fs' = fs" if "err \<noteq> None" using that by (rule eff(3))
  have slash: "CHR ''/'' \<notin> set ?n" by (simp add: upload_name_def basename_no_slash)
  have normal: "resolve (cwd fs) ?dest = dest_path c fs uf" if ok: "err = None"
  proof -
    from eff(5) [OF ok] have "?n \<noteq> ''.'' \<and> ?n \<noteq> ''..''"
      by (simp add: last_split_join [OF slash n])
    with slash n show ?thesis by (simp add: dest_path_def resolve_join)
  qed
  show "lookup fs' p = lookup fs p" if "p \<noteq> dest_path c fs uf"
  proof (cases err)
    case None
    with normal that eff(2) [of p] show ?thesis by simp
  next
    case (Some e)
    with eff(3) show ?thesis by simp
  qed
  show "lookup fs' (dest_path c fs uf) = Some (File (content uf))" if "err = None"
    using eff(4) [OF that] normal [OF that] by simp
qed


lemma upload_loop_skip:
  "\<not> accepted c uf \<Longrightarrow> upload_loop c (uf # ufs) acc fs = upload_loop c ufs acc fs"
  by simp

lemma upload_loop_step:
  assumes "accepted c uf"
    and "write_file fs (os_path_join (DATA_DIR c) (upload_name uf)) (content uf) = (err, fs1)"
  shows "upload_loop c (uf # ufs) acc fs =
     (case err of
        Some e \<Rightarrow> (Inl e, fs1)
      | None \<Rightarrow> upload_loop c ufs (acc @ [saved_entry uf]) fs1)"
  using assms by (simp add: saved_entry_def split: option.splits)

declare upload_loop.simps(2) [simp del]

lemma upload_loop_none:
  "filter (accepted c) files = [] \<Longrightarrow> upload_loop c files acc fs = (Inr acc, fs)"
proof (induction files)
  case Nil
  then show ?case by simp
next
  case (Cons uf ufs)
  then have "\<not> accepted c uf" and "filter (accepted c) ufs = []"
    by (simp_all split: if_splits)
  with Cons.IH show ?case by (simp add: upload_loop_skip)
qed

lemma dest_path_cwd: "cwd fs' = cwd fs \<Longrightarrow> dest_path c fs' uf = dest_path c fs uf"
  by (simp add: dest_path_def)

lemma upload_loop_cwd:
  "upload_loop c files acc fs = (r, fs') \<Longrightarrow> cwd fs' = cwd fs"
proof (induction files arbitrary: acc fs)
  case Nil
  then show ?case by simp
next
  case (Cons uf ufs)
  show ?case
  proof (cases "accepted c uf")
    case False
    with Cons.prems have "upload_loop c ufs acc fs = (r, fs')"
      by (simp add: upload_loop_skip)
    then show ?thesis by (rule Cons.IH)
  next
    case True
    obtain err fs1 where w: "write_file fs (os_path_join (DATA_DIR c) (upload_name uf)) (content uf) = (err, fs1)"
      by (cases "write_file fs (os_path_join (DATA_DIR c) (upload_name uf)) (content uf)")
    from True have n: "upload_name uf \<noteq> []" by (simp add: accepted_def)
    note u = upload_write [OF w n]
    note step = upload_loop_step [OF True w, of ufs acc]
    show ?thesis
    proof (cases err)
      case (Some e)
      with Cons.prems step have "fs' = fs1" by simp
      with u(1) show ?thesis by simp
    next
      case None
      with Cons.prems step have "upload_loop c ufs (acc @ [saved_entry uf]) fs1 = (r, fs')"
        by simp
      then have "cwd fs' = cwd fs1" by (rule Cons.IH)
      with u(1) show ?thesis by simp
    qed
  qed
qed


lemma upload_loop_saved:
  "upload_loop c files acc fs = (Inr sv, fs') \<Longrightarrow> sv = acc @ map saved_entry (filter (accepted c) files)"
proof (induction files arbitrary: acc fs)
  case Nil
  then show ?case by simp
next
  case (Cons uf ufs)
  show ?case
  proof (cases "accepted c uf")
    case False
    with Cons.prems have "upload_loop c ufs acc fs = (Inr sv, fs')"
      by (simp add: upload_loop_skip)
    then have "sv = acc @ map saved_entry (filter (accepted c) ufs)" by (rule Cons.IH)
    with False show ?thesis by simp
  next
    case True
    obtain err fs1 where w: "write_file fs (os_path_join (DATA_DIR c) (upload_name uf)) (content uf) = (err, fs1)"
      by (cases "write_file fs (os_path_join (DATA_DIR c) (upload_name uf)) (content uf)")
    note step = upload_loop_step [OF True w, of ufs acc]
    from Cons.prems step have "upload_loop c ufs (acc @ [saved_entry uf]) fs1 = (Inr sv, fs')"
      by (cases err) simp_all
    then have "sv = (acc @ [saved_entry uf]) @ map saved_entry (filter (accepted c) ufs)"
      by (rule Cons.IH)
    with True show ?thesis by simp
  qed
qed

lemma upload_loop_changes:
  "upload_loop c files acc fs = (r, fs') \<Longrightarrow> lookup fs' p \<noteq> lookup fs p \<Longrightarrow>
   \<exists>uf \<in> set files. accepted c uf \<and> p = dest_path c fs uf"
proof (induction files arbitrary: acc fs)
  case Nil
  then show ?case by simp
next
  case (Cons uf ufs)
  show ?case
  proof (cases "accepted c uf")
    case False
    with Cons.prems have "upload_loop c ufs acc fs = (r, fs')"
      by (simp add: upload_loop_skip)
    from Cons.IH [OF this Cons.prems(2)] show ?thesis by auto
  next
    case True
    obtain err fs1 where w: "write_file fs (os_path_join (DATA_DIR c) (upload_name uf)) (content uf) = (err, fs1)"
      by (cases "write_file fs (os_path_join (DATA_DIR c) (upload_name uf)) (content uf)")
    from True have n: "upload_name uf \<noteq> []" by (simp add: accepted_def)
    note u = upload_write [OF w n]
    note step = upload_loop_step [OF True w, of ufs acc]
    show ?thesis
    proof (cases "lookup fs' p = lookup fs1 p")
      case same: True
      with Cons.prems(2) have "lookup fs1 p \<noteq> lookup fs p" by simp
      with u(2) [of p] have "p = dest_path c fs uf" by blast
      with True show ?thesis by simp
    next
      case differ: False
      then have "fs' \<noteq> fs1" by auto
      with Cons.prems(1) step have run: "upload_loop c ufs (acc @ [saved_entry uf]) fs1 = (r, fs')"
        by (cases err) simp_all
      from Cons.IH [OF run differ] obtain uf' where
        "uf' \<in> set ufs" "accepted c uf'" "p = dest_path c fs1 uf'"
        by blast
      moreover have "dest_path c fs1 uf' = dest_path c fs uf'"
        using u(1) by (rule dest_path_cwd)
      ultimately show ?thesis by auto
    qed
  qed
qed

lemma upload_loop_written:
  "upload_loop c files acc fs = (Inr sv, fs') \<Longrightarrow> uf \<in> set files \<Longrightarrow> accepted c uf \<Longrightarrow>
   \<exists>uf' \<in> set files. accepted c uf' \<and> upload_name uf' = upload_name uf \<and>
      lookup fs' (dest_path c fs uf) = Some (File (content uf'))"
proof (induction files arbitrary: acc fs uf)
  case Nil
  then show ?case by simp
next
  case (Cons uf0 ufs)
  show ?case
  proof (cases "accepted c uf0")
    case False
    with Cons.prems(1) have run: "upload_loop c ufs acc fs = (Inr sv, fs')"
      by (simp add: upload_loop_skip)
    from False Cons.prems(2,3) have "uf \<in> set ufs" by auto
    from Cons.IH [OF run this Cons.prems(3)] show ?thesis by auto
  next
    case True
    obtain err fs1 where w: "write_file fs (os_path_join (DATA_DIR c) (upload_name uf0)) (content uf0) = (err, fs1)"
      by (cases "write_file fs (os_path_join (DATA_DIR c) (upload_name uf0)) (content uf0)")
    from True have n: "upload_name uf0 \<noteq> []" by (simp add: accepted_def)
    note u = upload_write [OF w n]
    note step = upload_loop_step [OF True w, of ufs acc]
    from Cons.prems(1) step have ok: "err = None"
      by (cases err) simp_all
    with Cons.prems(1) step
    have run: "upload_loop c ufs (acc @ [saved_entry uf0]) fs1 = (Inr sv, fs')"
      by simp
    have dp: "dest_path c fs1 x = dest_path c fs x" for x
      using u(1) by (rule dest_path_cwd)
    show ?thesis
    proof (cases "\<exists>x \<in> set ufs. accepted c x \<and> upload_name x = upload_name uf")
      case later: True
      then obtain x where x: "x \<in> set ufs" "accepted c x" "upload_name x = upload_name uf" by blast
      from Cons.IH [OF run x(1,2)] obtain uf' where uf':
        "uf' \<in> set ufs" "accepted c uf'" "upload_name uf' = upload_name x"
        "lookup fs' (dest_path c fs1 x) = Some (File (content uf'))" by blast
      have "dest_path c fs1 x = dest_path c fs uf"
        using x(3) u(1) by (simp add: dest_path_def)
      with uf' x(3) show ?thesis by auto
    next
      case last: False
      with Cons.prems(2,3) have eq: "uf = uf0" by auto
      have "lookup fs' (dest_path c fs uf0) = lookup fs1 (dest_path c fs uf0)"
      proof (rule ccontr)
        assume "lookup fs' (dest_path c fs uf0) \<noteq> lookup fs1 (dest_path c fs uf0)"
        from upload_loop_changes [OF run this] obtain x where
          "x \<in> set ufs" "accepted c x" "dest_path c fs uf0 = dest_path c fs1 x" by blast
        with last eq show False by (auto simp: dest_path_def)
      qed
      with u(3) [OF ok] eq True show ?thesis by auto
    qed
  qed
qed


text \<open>
  C10. \<open>upload\<close> keeps a file exactly when its base name is not empty and its
  extension in lower case is in \<open>core.ALLOWED_EXTS\<close>; the other files are passed
  over without an error. The base name has no slash. The file system changes
  only at the paths of kept files, each the data directory followed by the base
  name, so nothing is written outside the data directory; in a response the
  list \<open>saved\<close> names the kept files in order, and each of them is in the data
  directory under its base name. If no file is kept the request fails with
  status 400 and nothing is written, and status 400 is raised in no other case.
\<close>

theorem upload_saves_only_accepted:
  assumes "upload c files fs = (res, fs')"
  shows "(filter (accepted c) files = [] \<longrightarrow>
            res = Inl (Refused (HTTPException 400
                    ''No files saved (empty selection or unsupported extensions)'')) \<and> fs' = fs)
       \<and> (\<forall>h. res = Inl (Refused h) \<longrightarrow> filter (accepted c) files = [])
       \<and> (\<forall>resp. res = Inr resp \<longrightarrow>
            saved resp = map saved_entry (filter (accepted c) files) \<and>
            (\<forall>uf \<in> set files. accepted c uf \<longrightarrow>
               (\<exists>uf' \<in> set files. accepted c uf' \<and> upload_name uf' = upload_name uf \<and>
                  lookup fs' (dest_path c fs uf) = Some (File (content uf')))))
       \<and> (\<forall>p. lookup fs' p \<noteq> lookup fs p \<longrightarrow>
            (\<exists>uf \<in> set files. accepted c uf \<and> p = dest_path c fs uf))
       \<and> (\<forall>uf \<in> set files. accepted c uf \<longrightarrow>
            upload_name uf \<noteq> [] \<and> CHR ''/'' \<notin> set (upload_name uf) \<and>
            lower (snd (splitext (upload_name uf))) \<in> ALLOWED_EXTS c)"
proof -
  obtain r fs1 where loop: "upload_loop c files [] fs = (r, fs1)"
    by (cases "upload_loop c files [] fs")
  from assms loop have fs1: "fs1 = fs'"
    by (auto simp: upload_def split: sum.splits if_splits)
  have none: "res = Inl (Refused no_files_saved) \<and> fs' = fs" if "filter (accepted c) files = []"
    using assms upload_loop_none [OF that, of "[]" fs] by (simp add: upload_def)
  have refused: "filter (accepted c) files = []" if "res = Inl (Refused h)" for h
  proof -
    from assms loop that have "r = Inr []"
      by (auto simp: upload_def split: sum.splits if_splits)
    with loop upload_loop_saved [of c files "[]" fs "[]" fs1] show ?thesis by simp
  qed
  have fin: "r = Inr (saved resp)" if "res = Inr resp" for resp
    using assms loop that by (auto simp: upload_def split: sum.splits if_splits)
  have sv: "saved resp = map saved_entry (filter (accepted c) files)" if "res = Inr resp" for resp
    using upload_loop_saved [of c files "[]" fs "saved resp" fs1] loop fin [OF that] by simp
  have written: "\<exists>uf' \<in> set files. accepted c uf' \<and> upload_name uf' = upload_name uf \<and>
      lookup fs' (dest_path c fs uf) = Some (File (content uf'))"
    if "res = Inr resp" "uf \<in> set files" "accepted c uf" for resp uf
    using upload_loop_written [of c files "[]" fs "saved resp" fs' uf] loop fin [OF that(1)] that(2,3) fs1
    by simp
  have changes: "\<exists>uf \<in> set files. accepted c uf \<and> p = dest_path c fs uf"
    if "lookup fs' p \<noteq> lookup fs p" for p
    using upload_loop_changes [of c files "[]" fs r fs' p] loop fs1 that by simp
  have names: "upload_name uf \<noteq> [] \<and> CHR ''/'' \<notin> set (upload_name uf) \<and>
      lower (snd (splitext (upload_name uf))) \<in> ALLOWED_EXTS c" if "accepted c uf" for uf
    using that by (simp add: accepted_def upload_name_def basename_no_slash)
  show ?thesis
    using none refused sv written changes names
    unfolding no_files_saved_def by blast
qed

lemma lower_samples: "lower ''.TXT'' = ''.txt''" "lower ''.exe'' = ''.exe''" "lower [] = []"
  by (simp_all add: lower_def lower_char_def Let_def char_of_def bit_Suc_0_iff)


lemma demo_none_accepted: "filter (accepted demo_core) (tl demo_files) = []"
  by (simp add: accepted_def demo_core_def demo_files_def upload_name_def basename_def
        splitext_def lower_samples Let_def)



lemma acc1: "accepted demo_core \<lparr> filename = Some ''../../etc/Notes.TXT'', content = ''remember'' \<rparr>"
  and acc2: "\<not> accepted demo_core \<lparr> filename = Some ''run.exe'', content = ''MZ'' \<rparr>"
  and acc3: "\<not> accepted demo_core \<lparr> filename = None, content = [] \<rparr>"
  by (simp_all add: accepted_def demo_core_def upload_name_def basename_def
        splitext_def lower_samples Let_def)

lemma demo_write:
  "write_file demo_fs (os_path_join (DATA_DIR demo_core) ''Notes.TXT'') ''remember'' = (None, uploaded_fs)"
  by (simp add: write_file_def os_path_join_def demo_core_def demo_fs_def uploaded_fs_def
        resolve_def walk_def lookup_def Let_def)

lemma demo_upload:
  "upload demo_core demo_files demo_fs =
     (Inr \<lparr> saved = [\<lparr> saved_name = ''Notes.TXT'', saved_bytes = 8 \<rparr>], data_dir = ''data'' \<rparr>,
      uploaded_fs)"
  using demo_write
  by (simp add: upload_def demo_files_def upload_loop.simps acc1 acc2 acc3 upload_name_def
        basename_def) (simp add: demo_core_def)

lemma demo_refused:
  "upload demo_core (tl demo_files) demo_fs = (Inl (Refused no_files_saved), demo_fs)"
  by (simp add: upload_def demo_files_def upload_loop.simps acc2 acc3)


theorem upload_saves_only_accepted_witness:
  "upload demo_core demo_files demo_fs =
     (Inr \<lparr> saved = [\<lparr> saved_name = ''Notes.TXT'', saved_bytes = 8 \<rparr>], data_dir = ''data'' \<rparr>,
      uploaded_fs)
   \<and> [\<lparr> saved_name = ''Notes.TXT'', saved_bytes = 8 \<rparr>] =
       map saved_entry (filter (accepted demo_core) demo_files)
   \<and> filter (accepted demo_core) (tl demo_files) = []
   \<and> upload demo_core (tl demo_files) demo_fs =
       (Inl (Refused (HTTPException 400 ''No files saved (empty selection or unsupported extensions)'')),
        demo_fs)"
proof -
  note kept = upload_saves_only_accepted [OF demo_upload]
  note none = upload_saves_only_accepted [OF demo_refused]
  from kept have 1: "[\<lparr> saved_name = ''Notes.TXT'', saved_bytes = 8 \<rparr>] =
       map saved_entry (filter (accepted demo_core) demo_files)"
    by simp
  from none demo_none_accepted have 2: "Inl (Refused no_files_saved) =
      Inl (Refused (HTTPException 400 ''No files saved (empty selection or unsupported extensions)''))"
    by blast
  from demo_upload 1 demo_none_accepted demo_refused 2 show ?thesis by simp
qed

section \<open>Properties of the chunker and the retriever\<close>

lemma chunk_offsets_not_Nil: "chunk_offsets n w ov s \<noteq> []"
  by (subst chunk_offsets.simps) simp

lemma chunk_offsets_start:
  "i < length (chunk_offsets n w ov s) \<Longrightarrow> fst (chunk_offsets n w ov s ! i) = s + i * (w - ov)"
proof (induction n w ov s arbitrary: i rule: chunk_offsets.induct)
  case (1 n w ov s)
  show ?case
  proof (cases "s + w < n \<and> ov < w")
    case False
    with "1.prems" show ?thesis by (subst (asm) chunk_offsets.simps, subst chunk_offsets.simps) simp
  next
    case True
    then have unf: "chunk_offsets n w ov s = (s, s + w) # chunk_offsets n w ov (s + (w - ov))"
      by (subst chunk_offsets.simps) simp
    show ?thesis
    proof (cases i)
      case 0
      with True show ?thesis by (simp add: unf)
    next
      case (Suc j)
      with "1.prems" have "j < length (chunk_offsets n w ov (s + (w - ov)))" by (simp add: unf)
      from "1.IH" [OF True this] Suc show ?thesis by (simp add: unf)
    qed
  qed
qed

lemma chunk_offsets_end:
  "i < length (chunk_offsets n w ov s) \<Longrightarrow>
   snd (chunk_offsets n w ov s ! i) = min n (fst (chunk_offsets n w ov s ! i) + w)"
proof (induction n w ov s arbitrary: i rule: chunk_offsets.induct)
  case (1 n w ov s)
  show ?case
  proof (cases "s + w < n \<and> ov < w")
    case False
    with "1.prems" show ?thesis by (subst (asm) chunk_offsets.simps, subst chunk_offsets.simps, subst chunk_offsets.simps) simp
  next
    case True
    then have unf: "chunk_offsets n w ov s = (s, s + w) # chunk_offsets n w ov (s + (w - ov))"
      by (subst chunk_offsets.simps) simp
    show ?thesis
    proof (cases i)
      case 0
      with True show ?thesis by (simp add: unf)
    next
      case (Suc j)
      with "1.prems" have "j < length (chunk_offsets n w ov (s + (w - ov)))" by (simp add: unf)
      from "1.IH" [OF True this] Suc show ?thesis by (simp add: unf)
    qed
  qed
qed

lemma chunk_offsets_full:
  "Suc i < length (chunk_offsets n w ov s) \<Longrightarrow>
   snd (chunk_offsets n w ov s ! i) = fst (chunk_offsets n w ov s ! i) + w"
proof (induction n w ov s arbitrary: i rule: chunk_offsets.induct)
  case (1 n w ov s)
  show ?case
  proof (cases "s + w < n \<and> ov < w")
    case False
    with "1.prems" show ?thesis by (subst (asm) chunk_offsets.simps) simp
  next
    case True
    then have unf: "chunk_offsets n w ov s = (s, s + w) # chunk_offsets n w ov (s + (w - ov))"
      by (subst chunk_offsets.simps) simp
    show ?thesis
    proof (cases i)
      case 0
      with True show ?thesis by (simp add: unf)
    next
      case (Suc j)
      with "1.prems" have "Suc j < length (chunk_offsets n w ov (s + (w - ov)))" by (simp add: unf)
      from "1.IH" [OF True this] Suc show ?thesis by (simp add: unf)
    qed
  qed
qed

lemma chunk_offsets_last:
  "ov < w \<Longrightarrow> s \<le> n \<Longrightarrow> snd (last (chunk_offsets n w ov s)) = n"
proof (induction n w ov s rule: chunk_offsets.induct)
  case (1 n w ov s)
  show ?case
  proof (cases "s + w < n \<and> ov < w")
    case False
    with "1.prems" show ?thesis by (subst chunk_offsets.simps) auto
  next
    case True
    then have unf: "chunk_offsets n w ov s = (s, s + w) # chunk_offsets n w ov (s + (w - ov))"
      by (subst chunk_offsets.simps) simp
    from True have "s + (w - ov) \<le> n" by arith
    from "1.IH" [OF True "1.prems"(1) this] show ?thesis
      by (simp add: unf chunk_offsets_not_Nil)
  qed
qed

lemma chunk_offsets_scenario:
  "chunk_offsets 3000 1200 200 0 = [(0, 1200), (1000, 2200), (2000, 3000)]"
  by (simp add: chunk_offsets.simps)


lemma length_rank_insert: "length (rank_insert h gs) = Suc (length gs)"
  by (induction gs) auto

lemma length_rank: "length (rank hs) = length hs"
  by (induction hs) (auto simp: length_rank_insert)

lemma mset_rank_insert: "mset (rank_insert h gs) = add_mset h (mset gs)"
  by (induction gs) auto

lemma mset_rank: "mset (rank hs) = mset hs"
  by (induction hs) (auto simp: mset_rank_insert)

lemma set_rank_insert: "set (rank_insert h gs) = insert h (set gs)"
  by (induction gs) auto

lemma descending_rank_insert: "descending gs \<Longrightarrow> descending (rank_insert h gs)"
  by (induction gs) (auto simp: descending_def set_rank_insert)

lemma descending_rank: "descending (rank hs)"
  by (induction hs) (auto simp: descending_rank_insert, simp add: descending_def)

lemma filter_rank_insert:
  "filter (\<lambda>g. snd g = s) (rank_insert h gs) =
     (if snd h = s then h # filter (\<lambda>g. snd g = s) gs else filter (\<lambda>g. snd g = s) gs)"
  by (induction gs) auto

lemma filter_rank: "filter (\<lambda>g. snd g = s) (rank hs) = filter (\<lambda>g. snd g = s) hs"
  by (induction hs) (auto simp: filter_rank_insert)

lemma descending_take: "descending hs \<Longrightarrow> descending (take k hs)"
  by (simp add: descending_def sorted_wrt_take)


text \<open>
  C3. With a positive overlap smaller than the chunk size, chunking yields at
  least one chunk; chunk \<open>i\<close> starts at \<open>i\<close> times \<open>chunk_size - overlap\<close>, is the
  slice of the text from there of length \<open>chunk_size\<close> or up to the end of the text,
  every chunk but the last has the full length, and the last chunk ends where
  the text ends. For a text of 3000 characters, a chunk size of 1200 and an
  overlap of 200 there are exactly three chunks, with the ranges 0 to 1200, 1000
  to 2200 and 2000 to 3000.
\<close>

lemma take_window:
  "take (min (length xs) (s + w) - s) (drop s xs) = take w (drop s xs)"
  by (cases "s + w \<le> length xs") (simp_all add: min_def)

theorem chunk_slides_window:
  assumes "0 < overlap" and "overlap < chunk_size"
  shows "let cs = projr (chunk doc text chunk_size overlap)
         in chunk doc text chunk_size overlap = Inr cs \<and> cs \<noteq> [] \<and>
            (\<forall>i < length cs.
               start_offset (cs ! i) = i * nat (chunk_size - overlap) \<and>
               end_offset (cs ! i) = min (length text) (start_offset (cs ! i) + nat chunk_size) \<and>
               chunk_text (cs ! i) = take (nat chunk_size) (drop (start_offset (cs ! i)) text) \<and>
               seq_index (cs ! i) = i \<and> source (cs ! i) = doc \<and>
               (Suc i < length cs \<longrightarrow> length (chunk_text (cs ! i)) = nat chunk_size)) \<and>
            end_offset (last cs) = length text \<and>
            (length text = 3000 \<and> chunk_size = 1200 \<and> overlap = 200 \<longrightarrow>
               map (\<lambda>c. (start_offset c, end_offset c)) cs = [(0, 1200), (1000, 2200), (2000, 3000)])"
proof -
  define w where "w = nat chunk_size"
  define ov where "ov = nat overlap"
  define offs where "offs = chunk_offsets (length text) w ov 0"
  define mk where "mk = (\<lambda>(i, (s, e)).
      \<lparr> source = doc, start_offset = s, end_offset = e,
        chunk_text = take (e - s) (drop s text), seq_index = i \<rparr>)"
  define cs where "cs = map mk (enumerate 0 offs)"
  from assms have valid: "ov < w" and step: "w - ov = nat (chunk_size - overlap)"
    by (simp_all add: w_def ov_def)
  have run: "chunk doc text chunk_size overlap = Inr cs"
    using assms by (simp add: chunk_def cs_def mk_def offs_def w_def ov_def)
  have len: "length cs = length offs" by (simp add: cs_def)
  have "offs \<noteq> []" by (simp add: offs_def chunk_offsets_not_Nil)
  then have "length cs \<noteq> 0" by (simp add: len)
  then have ne: "cs \<noteq> []" by auto
  have nth: "cs ! i = \<lparr> source = doc, start_offset = fst (offs ! i), end_offset = snd (offs ! i),
        chunk_text = take (snd (offs ! i) - fst (offs ! i)) (drop (fst (offs ! i)) text),
        seq_index = i \<rparr>" if "i < length cs" for i
    using that by (simp add: cs_def mk_def nth_enumerate_eq split: prod.splits)
  have st: "fst (offs ! i) = i * (w - ov)" if "i < length cs" for i
    using chunk_offsets_start [of i "length text" w ov 0] that by (simp add: offs_def len)
  have en: "snd (offs ! i) = min (length text) (fst (offs ! i) + w)" if "i < length cs" for i
    using chunk_offsets_end [of i "length text" w ov 0] that by (simp add: offs_def len)
  have full: "snd (offs ! i) = fst (offs ! i) + w" if "Suc i < length cs" for i
    using chunk_offsets_full [of i "length text" w ov 0] that by (simp add: offs_def len)
  have each: "start_offset (cs ! i) = i * nat (chunk_size - overlap) \<and>
        end_offset (cs ! i) = min (length text) (start_offset (cs ! i) + nat chunk_size) \<and>
        chunk_text (cs ! i) = take (nat chunk_size) (drop (start_offset (cs ! i)) text) \<and>
        seq_index (cs ! i) = i \<and> source (cs ! i) = doc \<and>
        (Suc i < length cs \<longrightarrow> length (chunk_text (cs ! i)) = nat chunk_size)" if i: "i < length cs" for i
  proof -
    note c = nth [OF i]
    have 1: "start_offset (cs ! i) = i * nat (chunk_size - overlap)"
      using st [OF i] by (simp add: c step)
    have 2: "end_offset (cs ! i) = min (length text) (start_offset (cs ! i) + nat chunk_size)"
      using en [OF i] by (simp add: c w_def)
    have 3: "chunk_text (cs ! i) = take (nat chunk_size) (drop (start_offset (cs ! i)) text)"
      using en [OF i] take_window [of "text" "fst (offs ! i)" w] by (simp add: c w_def)
    have 4: "length (chunk_text (cs ! i)) = nat chunk_size" if "Suc i < length cs"
      using full [OF that] en [OF i] by (simp add: c w_def)
    from 1 2 3 4 show ?thesis by (simp add: c)
  qed
  have lst: "end_offset (last cs) = length text"
  proof -
    have "last cs = cs ! (length cs - 1)" using ne by (simp add: last_conv_nth)
    moreover have "snd (last offs) = length text"
      using chunk_offsets_last [OF valid, of 0 "length text"] by (simp add: offs_def)
    moreover have "last offs = offs ! (length cs - 1)"
      using \<open>offs \<noteq> []\<close> by (simp add: last_conv_nth len)
    ultimately show ?thesis using ne nth [of "length cs - 1"] by simp
  qed
  have scen: "map (\<lambda>c. (start_offset c, end_offset c)) cs = [(0, 1200), (1000, 2200), (2000, 3000)]"
    if "length text = 3000 \<and> chunk_size = 1200 \<and> overlap = 200"
  proof -
    from that have n: "length text = 3000" and w: "w = 1200" and ov: "ov = 200"
      by (simp_all add: w_def ov_def)
    have "offs = [(0, 1200), (1000, 2200), (2000, 3000)]"
      unfolding offs_def n w ov by (rule chunk_offsets_scenario)
    then show ?thesis by (simp add: cs_def mk_def)
  qed
  have sel: "projr (chunk doc text chunk_size overlap) = cs" by (simp only: run sum.sel)
  show ?thesis
    unfolding Let_def sel
  proof (intro conjI)
    show "chunk doc text chunk_size overlap = Inr cs" by (rule run)
    show "cs \<noteq> []" by (rule ne)
    show "end_offset (last cs) = length text" by (rule lst)
    show "length text = 3000 \<and> chunk_size = 1200 \<and> overlap = 200 \<longrightarrow>
        map (\<lambda>c. (start_offset c, end_offset c)) cs = [(0, 1200), (1000, 2200), (2000, 3000)]"
      using scen by (rule impI)
    show "\<forall>i < length cs.
        start_offset (cs ! i) = i * nat (chunk_size - overlap) \<and>
        end_offset (cs ! i) = min (length text) (start_offset (cs ! i) + nat chunk_size) \<and>
        chunk_text (cs ! i) = take (nat chunk_size) (drop (start_offset (cs ! i)) text) \<and>
        seq_index (cs ! i) = i \<and> source (cs ! i) = doc \<and>
        (Suc i < length cs \<longrightarrow> length (chunk_text (cs ! i)) = nat chunk_size)"
      using each by (intro allI impI)
  qed
qed

theorem chunk_slides_window_witness:
  "map (\<lambda>c. (start_offset c, end_offset c))
     (projr (chunk ''doc.txt'' (replicate 3000 CHR ''a'') 1200 200)) =
   [(0, 1200), (1000, 2200), (2000, 3000)]"
proof -
  have h: "(0::int) < 200" "(200::int) < 1200" by simp_all
  have len: "length (replicate 3000 CHR ''a'') = 3000 \<and> (1200::int) = 1200 \<and> (200::int) = 200"
    by (simp only: length_replicate simp_thms)
  note w = chunk_slides_window [OF h, of "''doc.txt''" "replicate 3000 CHR ''a''", unfolded Let_def]
  from w have "length (replicate 3000 CHR ''a'') = 3000 \<and> (1200::int) = 1200 \<and> (200::int) = 200 \<longrightarrow>
      map (\<lambda>c. (start_offset c, end_offset c))
        (projr (chunk ''doc.txt'' (replicate 3000 CHR ''a'') 1200 200)) =
      [(0, 1200), (1000, 2200), (2000, 3000)]"
    by (elim conjE)
  from this len show ?thesis by (rule mp)
qed

text \<open>
  C2. For a loaded index and a positive \<open>top_k\<close>, the retriever returns the first
  \<open>top_k\<close> hits of the ranking of all rows, so as many hits as the smaller of
  \<open>top_k\<close> and the size of the index, and all rows when \<open>top_k\<close> is at least that
  size, which is no error. The ranking holds every row once, with its score, in
  descending order of score, and rows of equal score stay in their order of
  insertion.
\<close>

theorem retrieve_ranked_top_k:
  assumes "0 < top_k"
  shows "let scored = map (\<lambda>(m, v). (m, sim query_vector v)) rows;
             ranked = rank scored;
             hits = take (nat top_k) ranked
         in retrieve_top_k sim (Some rows) query_vector top_k = Inr hits \<and>
            length hits = min (nat top_k) (length rows) \<and>
            descending hits \<and>
            descending ranked \<and>
            mset ranked = mset scored \<and>
            (\<forall>s. filter (\<lambda>h. snd h = s) ranked = filter (\<lambda>h. snd h = s) scored) \<and>
            (int (length rows) \<le> top_k \<longrightarrow> hits = ranked \<and> length hits = length rows)"
proof -
  define scored where "scored = map (\<lambda>(m, v). (m, sim query_vector v)) rows"
  define ranked where "ranked = rank scored"
  define hits where "hits = take (nat top_k) ranked"
  have run: "retrieve_top_k sim (Some rows) query_vector top_k = Inr hits"
    using assms by (simp add: retrieve_top_k_def hits_def ranked_def scored_def)
  have len: "length ranked = length rows"
    by (simp add: ranked_def scored_def length_rank)
  have 1: "length hits = min (nat top_k) (length rows)"
    by (simp add: hits_def len)
  have 2: "descending ranked" by (simp add: ranked_def descending_rank)
  then have 3: "descending hits" unfolding hits_def by (rule descending_take)
  have 4: "mset ranked = mset scored" by (simp add: ranked_def mset_rank)
  have 5: "\<forall>s. filter (\<lambda>h. snd h = s) ranked = filter (\<lambda>h. snd h = s) scored"
    by (simp add: ranked_def filter_rank)
  have 6: "int (length rows) \<le> top_k \<longrightarrow> hits = ranked \<and> length hits = length rows"
    by (simp add: hits_def len)
  show ?thesis
    unfolding Let_def scored_def [symmetric] ranked_def [symmetric] hits_def [symmetric]
    using run 1 2 3 4 5 6 by (intro conjI)
qed

lemma demo_ranked:
  "rank (map (\<lambda>(m, v). (m, score_is_vector 0 v)) demo_rows) =
     [(''b'', 3), (''d'', 2), (''a'', 1), (''c'', 1)]"
  by (simp add: demo_rows_def score_is_vector_def)

theorem retrieve_ranked_top_k_witness:
  "retrieve_top_k score_is_vector (Some demo_rows) 0 3 = Inr [(''b'', 3), (''d'', 2), (''a'', 1)]
   \<and> descending [(''b'', 3 :: nat), (''d'', 2), (''a'', 1)]
   \<and> retrieve_top_k score_is_vector (Some demo_rows) 0 9 =
       Inr [(''b'', 3), (''d'', 2), (''a'', 1), (''c'', 1)]"
proof -
  have h3: "(0::int) < 3" and h9: "(0::int) < 9" by simp_all
  note a = retrieve_ranked_top_k [OF h3, of score_is_vector 0 demo_rows, unfolded Let_def demo_ranked]
  note b = retrieve_ranked_top_k [OF h9, of score_is_vector 0 demo_rows, unfolded Let_def demo_ranked]
  from a have 1: "retrieve_top_k score_is_vector (Some demo_rows) 0 3 = Inr [(''b'', 3), (''d'', 2), (''a'', 1)]"
    by simp
  from a have 2: "descending [(''b'', 3 :: nat), (''d'', 2), (''a'', 1)]"
    by simp
  from b have 3: "retrieve_top_k score_is_vector (Some demo_rows) 0 9 =
       Inr [(''b'', 3), (''d'', 2), (''a'', 1), (''c'', 1)]"
    by simp
  from 1 2 3 show ?thesis by (intro conjI)
qed

end
